theory Spec2Isabelle
  imports
    Main
    "HOL-Library.Sublist"
    "HOL-Library.Char_ord"
    "HOL-Library.List_Lexorder"
    "HOL-Library.Product_Lexorder"
    "HOL-Library.Multiset"
begin

section \<open>Strings\<close>

text \<open>
  A Python \<open>str\<close> is modelled as a \<^typ>\<open>string\<close>: a list of characters with code
  points 0 to 255 (Latin-1). The character classes below are the ones Python 3 uses for
  \<open>str.split()\<close>, \<open>str.strip()\<close>, \<open>str.lower()\<close> and the patterns \<open>\s\<close> and \<open>\w\<close> of
  \<open>re\<close>, restricted to that range. The euro sign of the whitelist of \<open>_clean_text\<close>
  lies outside the range, so it has no counterpart here.
\<close>

definition is_space :: "char \<Rightarrow> bool" where
  "is_space c = (of_char c \<in> set [9, 10, 11, 12, 13, 28, 29, 30, 31, 32, 133, 160 :: nat])"

definition is_word :: "char \<Rightarrow> bool" where
  "is_word c = (let n = of_char c :: nat in
     (48 \<le> n \<and> n \<le> 57) \<or> (65 \<le> n \<and> n \<le> 90) \<or> n = 95 \<or> (97 \<le> n \<and> n \<le> 122) \<or>
     n \<in> set [170, 178, 179, 181, 185, 186, 188, 189, 190] \<or>
     (192 \<le> n \<and> n \<le> 214) \<or> (216 \<le> n \<and> n \<le> 246) \<or> (248 \<le> n \<and> n \<le> 255))"

definition is_upper :: "char \<Rightarrow> bool" where
  "is_upper c = (let n = of_char c :: nat in
     (65 \<le> n \<and> n \<le> 90) \<or> (192 \<le> n \<and> n \<le> 222 \<and> n \<noteq> 215))"

text \<open>
  \<open>str.lower()\<close> on one character: an upper-case letter moves 32 code points up, which
  sets bit 5 (clear in every upper-case letter of the range).
\<close>

definition lower_char :: "char \<Rightarrow> char" where
  "lower_char c =
     (if is_upper c
      then Char (digit0 c) (digit1 c) (digit2 c) (digit3 c) (digit4 c) True (digit6 c) (digit7 c)
      else c)"

definition lower :: "string \<Rightarrow> string" where
  "lower s = map lower_char s"

text \<open>\<open>s.strip()\<close>: white space removed at both ends.\<close>

definition strip :: "string \<Rightarrow> string" where
  "strip s = rev (dropWhile is_space (rev (dropWhile is_space s)))"

text \<open>
  \<open>s.split()\<close>: the maximal runs of characters that are not white space. The first
  argument is the word read so far.
\<close>

fun split_ws_from :: "string \<Rightarrow> string \<Rightarrow> string list" where
  "split_ws_from w [] = (if w = [] then [] else [w])"
| "split_ws_from w (c # cs) =
     (if is_space c
      then (if w = [] then split_ws_from [] cs else w # split_ws_from [] cs)
      else split_ws_from (w @ [c]) cs)"

definition split_ws :: "string \<Rightarrow> string list" where
  "split_ws s = split_ws_from [] s"

text \<open>\<open>sep.join(parts)\<close>.\<close>

fun str_join :: "string \<Rightarrow> string list \<Rightarrow> string" where
  "str_join sep [] = []"
| "str_join sep [p] = p"
| "str_join sep (p # q # ps) = p @ sep @ str_join sep (q # ps)"

text \<open>\<open>needle in hay\<close> on strings: \<open>needle\<close> occurs in \<open>hay\<close> as a contiguous block.\<close>

fun str_in :: "string \<Rightarrow> string \<Rightarrow> bool" where
  "str_in needle [] = (needle = [])"
| "str_in needle (c # cs) = (prefix needle (c # cs) \<or> str_in needle cs)"

section \<open>Text cleaner\<close>

text \<open>
  The characters the pattern of \<open>_clean_text\<close> leaves in place: word characters, white
  space, the currency signs (dollar, pound at code point 163, yen at code point 165) and
  \<open>. , : - / ( ) %\<close>.
\<close>

definition allowed_char :: "char \<Rightarrow> bool" where
  "allowed_char c =
     (is_word c \<or> is_space c \<or> c \<in> set [CHR ''$'', CHR 0xA3, CHR 0xA5] \<or> c \<in> set ''.,:-/()%'')"

definition clean_text :: "string \<Rightarrow> string" where
  "clean_text text =
     (if text = [] then []
      else strip (filter allowed_char (str_join '' '' (split_ws text))))"

text \<open>Two neighbouring white space characters somewhere in a string.\<close>

fun has_space_run :: "string \<Rightarrow> bool" where
  "has_space_run (a # b # cs) = ((is_space a \<and> is_space b) \<or> has_space_run (b # cs))"
| "has_space_run _ = False"

section \<open>Records\<close>

text \<open>
  A record is a Python \<open>dict\<close> from column names to strings, modelled as the list of its
  items in insertion order. \<open>d[k] = v\<close> overwrites the value of a key that is present, in
  place, and adds a new key at the end; \<open>len(d)\<close> is the length of the list and
  \<open>d.get(k)\<close> is \<^const>\<open>map_of\<close>.
\<close>

type_synonym pydict = "(string \<times> string) list"

fun dict_set :: "pydict \<Rightarrow> string \<Rightarrow> string \<Rightarrow> pydict" where
  "dict_set [] k v = [(k, v)]"
| "dict_set ((k', v') # d) k v =
     (if k' = k then (k, v) # d else (k', v') # dict_set d k v)"

definition dict_keys :: "pydict \<Rightarrow> string list" where
  "dict_keys d = map fst d"

definition target_columns :: "string list" where
  "target_columns =
     [''Receipt No'', ''Date'', ''Principal'', ''Pen'', ''CBU'', ''CBU withdraw'', ''Collector'']"

definition calculated_columns :: "string list" where
  "calculated_columns =
     [''Principal_PassBook'', ''Principal_Variance'', ''CBU_PassBook'', ''CBU_Variance'',
      ''CBU_withdraw_PassBook'', ''CBU_withdraw_Variance'']"

section \<open>Parsed HTML\<close>

text \<open>
  What the scraper reads of the parsed page. A cell is a \<open>td\<close> or \<open>th\<close> element with
  its \<open>get_text()\<close> and whether the header search counts it as bold
  (\<open>cell.find('b') or 'font-weight:bold' in str(cell)\<close>). A row is the list
  \<open>row.find_all(['td', 'th'])\<close> in document order, so \<open>row.find_all('th')\<close> and
  \<open>row.find_all('td')\<close> are its sublists by tag. A table is its \<open>get_text()\<close> and the list
  \<open>table.find_all('tr')\<close>. A page is \<open>soup.find_all('table')\<close> and the texts of
  \<open>soup.find_all(['div', 'span', 'p'])\<close>.
\<close>

datatype cell_tag = TH | TD

record cell =
  tag :: cell_tag
  cell_text :: string
  bold :: bool

type_synonym row = "cell list"

record table =
  table_text :: string
  rows :: "row list"

record page =
  tables :: "table list"
  elements :: "string list"

section \<open>Table classifier\<close>

definition payment_indicators :: "string list" where
  "payment_indicators =
     [''receipt'', ''date'', ''principal'', ''collector'', ''pen'', ''cbu'', ''payment'',
      ''amount paid'']"

definition is_payment_table :: "string \<Rightarrow> bool" where
  "is_payment_table text =
     (4 \<le> length (filter (\<lambda>indicator. str_in indicator text) payment_indicators))"

definition contains_header_keywords :: "string list \<Rightarrow> bool" where
  "contains_header_keywords headers =
     (let header_text = lower (str_join '' '' headers)
      in list_ex (\<lambda>target. str_in (lower target) header_text) target_columns)"

section \<open>Header mapper\<close>

text \<open>
  The \<open>if\<close>/\<open>elif\<close> chain of \<open>_map_headers_to_targets\<close> for one header, in the order of
  the source; \<open>None\<close> when no branch applies and the position stays unmapped.
\<close>

definition map_header :: "string \<Rightarrow> string option" where
  "map_header header =
     (let header_lower = strip (lower header) in
      if header_lower = ''date'' then Some ''Date''
      else if header_lower \<in> set [''receipt no'', ''receipt'', ''receipt number'', ''ref no'',
                ''reference'', ''transaction id''] then Some ''Receipt No''
      else if header_lower = ''principal'' then Some ''Principal''
      else if header_lower = ''pen'' then Some ''Pen''
      else if header_lower = ''cbu'' then Some ''CBU''
      else if header_lower = ''cbu withdraw'' then Some ''CBU withdraw''
      else if header_lower = ''collector'' then Some ''Collector''
      else if str_in ''date'' header_lower \<and> length header_lower \<le> 10 then Some ''Date''
      else if header_lower \<in> set [''penalty'', ''pen'', ''denda'']
                \<or> (header_lower = ''pen'' \<and> length header \<le> 5) then Some ''Pen''
      else if str_in ''principal'' header_lower \<or> str_in ''pokok'' header_lower
           then Some ''Principal''
      else if prefix ''cbu'' header_lower
           then (if str_in ''withdraw'' header_lower \<or> str_in ''tarik'' header_lower
                 then Some ''CBU withdraw'' else Some ''CBU'')
      else if str_in ''collector'' header_lower \<or> str_in ''kolektor'' header_lower
           then Some ''Collector''
      else None)"

text \<open>
  The loop over \<open>enumerate(headers)\<close>, from position \<open>i\<close> on: the mapping as the list of
  its items (position, target column).
\<close>

fun map_headers_from :: "nat \<Rightarrow> string list \<Rightarrow> (nat \<times> string) list" where
  "map_headers_from i [] = []"
| "map_headers_from i (header # headers) =
     (case map_header header of
        Some target \<Rightarrow> (i, target) # map_headers_from (Suc i) headers
      | None \<Rightarrow> map_headers_from (Suc i) headers)"

definition map_headers_to_targets :: "string list \<Rightarrow> (nat \<times> string) list" where
  "map_headers_to_targets headers = map_headers_from 0 headers"

section \<open>Row extractor\<close>

text \<open>
  The header search of \<open>_process_table\<close>: the first row with \<open>th\<close> cells, or with \<open>td\<close>
  cells of which one is bold or whose texts hold a target keyword. It returns \<open>headers\<close>
  and \<open>header_row\<close>, which stay \<open>[]\<close> and \<open>None\<close> when no row qualifies.
\<close>

fun find_header :: "row list \<Rightarrow> string list \<times> row option" where
  "find_header [] = ([], None)"
| "find_header (row # rest) =
     (let th_cells = filter (\<lambda>c. tag c = TH) row in
      if th_cells \<noteq> [] then (map (\<lambda>c. clean_text (cell_text c)) th_cells, Some row)
      else
        let td_cells = filter (\<lambda>c. tag c = TD) row;
            bold_count = length (filter bold td_cells)
        in if td_cells \<noteq> [] \<and>
              (bold_count > 0 \<or>
               contains_header_keywords (map (\<lambda>c. clean_text (cell_text c)) td_cells))
           then (map (\<lambda>c. clean_text (cell_text c)) td_cells, Some row)
           else find_header rest)"

text \<open>
  The loop over \<open>enumerate(cells)\<close> of one data row, from position \<open>i\<close> on, updating
  \<open>row_data\<close>.
\<close>

fun fill_row_data :: "(nat \<times> string) list \<Rightarrow> nat \<Rightarrow> cell list \<Rightarrow> pydict \<Rightarrow> pydict" where
  "fill_row_data column_mapping i [] row_data = row_data"
| "fill_row_data column_mapping i (c # cells) row_data =
     (let text = clean_text (cell_text c) in
      case map_of column_mapping i of
        Some target_column \<Rightarrow>
          if target_column \<noteq> [] \<and> text \<noteq> []
          then fill_row_data column_mapping (Suc i) cells (dict_set row_data target_column text)
          else fill_row_data column_mapping (Suc i) cells row_data
      | None \<Rightarrow> fill_row_data column_mapping (Suc i) cells row_data)"

definition add_calculated :: "pydict \<Rightarrow> pydict" where
  "add_calculated row_data =
     dict_set (dict_set (dict_set (dict_set (dict_set (dict_set row_data
       ''Principal_PassBook'' []) ''Principal_Variance'' []) ''CBU_PassBook'' [])
       ''CBU_Variance'' []) ''CBU_withdraw_PassBook'' []) ''CBU_withdraw_Variance'' []"

text \<open>The loop over \<open>data_rows\<close>.\<close>

fun extract_rows :: "(nat \<times> string) list \<Rightarrow> string list \<Rightarrow> row list \<Rightarrow> pydict list" where
  "extract_rows column_mapping headers [] = []"
| "extract_rows column_mapping headers (cells # data_rows) =
     (if length cells = length headers
      then (let row_data = fill_row_data column_mapping 0 cells []
            in if 3 \<le> length row_data
               then add_calculated row_data # extract_rows column_mapping headers data_rows
               else extract_rows column_mapping headers data_rows)
      else extract_rows column_mapping headers data_rows)"

text \<open>
  \<open>_process_table\<close>. A \<open>Tag\<close> of the parser is true whenever it is not \<open>None\<close>, so
  \<open>all_rows[1:] if header_row else all_rows\<close> drops the first row exactly when a header
  row was found.
\<close>

definition process_table :: "table \<Rightarrow> pydict list" where
  "process_table t =
     (if \<not> is_payment_table (lower (table_text t)) then []
      else
        let (headers, header_row) = find_header (rows t) in
        if headers = [] then []
        else
          let column_mapping = map_headers_to_targets headers in
          if length (filter (\<lambda>v. v \<noteq> []) (map snd column_mapping)) < 3 then []
          else
            let all_rows = rows t;
                data_rows = (if header_row \<noteq> None then drop 1 all_rows else all_rows)
            in extract_rows column_mapping headers data_rows)"

definition extract_from_tables :: "table list \<Rightarrow> pydict list" where
  "extract_from_tables ts = concat (map process_table ts)"

section \<open>Fallback structured extractor\<close>

text \<open>
  \<open>text.split(':', 1)\<close> for a text that holds a colon: what stands before the first colon
  and what stands after it.
\<close>

definition split_colon :: "string \<Rightarrow> string \<times> string" where
  "split_colon text =
     (takeWhile (\<lambda>c. c \<noteq> CHR '':'') text, drop 1 (dropWhile (\<lambda>c. c \<noteq> CHR '':'') text))"

text \<open>
  The inner \<open>for\<close> with its \<open>break\<close>: the first target column whose lower-case name occurs
  in the lower-case key.
\<close>

definition match_target :: "string \<Rightarrow> string option" where
  "match_target key = find (\<lambda>target. str_in (lower target) (lower key)) target_columns"

text \<open>The body of the loop up to the flush: the record after the element's text was read.\<close>

definition read_element :: "pydict \<Rightarrow> string \<Rightarrow> pydict" where
  "read_element current_record element =
     (let text = clean_text element in
      if CHR '':'' \<in> set text
      then (let parts = split_colon text; key = strip (fst parts); val = strip (snd parts)
            in case match_target key of
                 Some target \<Rightarrow> dict_set current_record target val
               | None \<Rightarrow> current_record)
      else current_record)"

fun structured_loop :: "pydict \<Rightarrow> pydict list \<Rightarrow> string list \<Rightarrow> pydict list" where
  "structured_loop current_record data [] =
     (if current_record \<noteq> [] then data @ [current_record] else data)"
| "structured_loop current_record data (element # rest) =
     (let current_record = read_element current_record element in
      if 2 \<le> length current_record
      then structured_loop [] (data @ [current_record]) rest
      else structured_loop current_record data rest)"

definition extract_from_structured_content :: "string list \<Rightarrow> pydict list" where
  "extract_from_structured_content els = structured_loop [] [] els"

text \<open>
  A field read from the text of one element, in the words of the specification: the
  cleaned text is a \<open>key: value\<close> pattern, the field's name is a target column whose
  name occurs (case ignored) in the key, and the field's value is the value of the pattern.
\<close>

definition field_of_element :: "string \<times> string \<Rightarrow> string \<Rightarrow> bool" where
  "field_of_element kv element =
     (let text = clean_text element; parts = split_colon text
      in CHR '':'' \<in> set text \<and> fst kv \<in> set target_columns \<and>
         str_in (lower (fst kv)) (lower (strip (fst parts))) \<and> snd kv = strip (snd parts))"

section \<open>Deduplicator\<close>

text \<open>\<open>tuple(sorted(item.items()))\<close>: the items in the order of Python's tuple comparison.\<close>

definition signature :: "pydict \<Rightarrow> (string \<times> string) list" where
  "signature item = sort item"

fun dedup_loop ::
  "(string \<times> string) list set \<Rightarrow> pydict list \<Rightarrow> pydict list \<Rightarrow> pydict list" where
  "dedup_loop seen unique_data [] = unique_data"
| "dedup_loop seen unique_data (item # rest) =
     (let item_signature = signature item in
      if item_signature \<notin> seen
      then dedup_loop (insert item_signature seen) (unique_data @ [item]) rest
      else dedup_loop seen unique_data rest)"

definition remove_duplicates :: "pydict list \<Rightarrow> pydict list" where
  "remove_duplicates data = dedup_loop {} [] data"

section \<open>Scraping a parsed page\<close>

text \<open>
  \<open>scrape_payment_data\<close> from the parsed page on; fetching the page and wrapping its
  failures are outside the model.
\<close>

definition scrape_payment_data :: "page \<Rightarrow> pydict list" where
  "scrape_payment_data soup =
     (let payment_data = extract_from_tables (tables soup);
          payment_data = (if payment_data = []
                          then payment_data @ extract_from_structured_content (elements soup)
                          else payment_data)
      in remove_duplicates payment_data)"

section \<open>User edits\<close>

text \<open>
  The body of \<open>update_data\<close> between reading the request and writing the session. The
  JSON body is an object or something else; an entry's key is given by what
  \<open>int(row_index)\<close> makes of it, an integer or a \<open>ValueError\<close>; an entry's value is an
  object, whose values are given as their \<open>str(value)\<close>, or something else. An exception
  leaves the handler before \<open>session[data_key] = scraped_info\<close>: the result is then the
  error (the answer 500) and nothing is written.
\<close>

datatype py_error = IndexError | ValueError | AttributeError

datatype row_key = IntKey int | NotInt

datatype json_updates = Updates "(string \<times> string) list" | NotObject

datatype json_body = Body "(row_key \<times> json_updates) list" | NotDict

definition editable_columns :: "string list" where
  "editable_columns =
     [''Principal_PassBook'', ''Principal_Variance'', ''CBU_PassBook'', ''CBU_Variance'',
      ''CBU_withdraw_PassBook'', ''CBU_withdraw_Variance'']"

text \<open>
  \<open>data[row_idx][key] = value\<close> with Python's indexing: a negative index counts from the
  end, and an index that addresses no element raises \<open>IndexError\<close>.
\<close>

definition set_field ::
  "pydict list \<Rightarrow> int \<Rightarrow> string \<Rightarrow> string \<Rightarrow> py_error + pydict list" where
  "set_field data row_idx key val =
     (let n = int (length data); j = (if row_idx < 0 then n + row_idx else row_idx)
      in if 0 \<le> j \<and> j < n
         then Inr (data[nat j := dict_set (data ! nat j) key val])
         else Inl IndexError)"

text \<open>The loop over \<open>updates.items()\<close>.\<close>

fun apply_updates ::
  "pydict list \<Rightarrow> int \<Rightarrow> (string \<times> string) list \<Rightarrow> py_error + pydict list" where
  "apply_updates data row_idx [] = Inr data"
| "apply_updates data row_idx ((key, val) # updates) =
     (if key \<in> set editable_columns
      then (case set_field data row_idx key val of
              Inl e \<Rightarrow> Inl e
            | Inr data' \<Rightarrow> apply_updates data' row_idx updates)
      else apply_updates data row_idx updates)"

text \<open>The loop over \<open>update_data.items()\<close>.\<close>

fun update_rows ::
  "pydict list \<Rightarrow> (row_key \<times> json_updates) list \<Rightarrow> py_error + pydict list" where
  "update_rows data [] = Inr data"
| "update_rows data ((row_index, updates) # entries) =
     (case row_index of
        NotInt \<Rightarrow> Inl ValueError
      | IntKey row_idx \<Rightarrow>
          if row_idx < int (length data)
          then (case updates of
                  NotObject \<Rightarrow> Inl AttributeError
                | Updates kvs \<Rightarrow>
                    (case apply_updates data row_idx kvs of
                       Inl e \<Rightarrow> Inl e
                     | Inr data' \<Rightarrow> update_rows data' entries))
          else update_rows data entries)"

definition update_data :: "pydict list \<Rightarrow> json_body \<Rightarrow> py_error + pydict list" where
  "update_data data body =
     (case body of NotDict \<Rightarrow> Inl AttributeError | Body entries \<Rightarrow> update_rows data entries)"

text \<open>The column invariant of a record: every key is a target or a calculated column.\<close>

definition record_ok :: "pydict \<Rightarrow> bool" where
  "record_ok r =
     list_all (\<lambda>k. k \<in> set target_columns \<or> k \<in> set calculated_columns) (dict_keys r)"

section \<open>Sample pages\<close>

definition th_cell :: "string \<Rightarrow> cell" where
  "th_cell s = \<lparr>tag = TH, cell_text = s, bold = False\<rparr>"

definition td_cell :: "string \<Rightarrow> cell" where
  "td_cell s = \<lparr>tag = TD, cell_text = s, bold = False\<rparr>"

text \<open>A table with its header row first and one data row.\<close>

definition sample_table :: table where
  "sample_table =
     \<lparr>table_text = ''DatePrincipalPenCBUCollector2024-01-051,000.00050Ana'',
      rows = [map th_cell [''Date'', ''Principal'', ''Pen'', ''CBU'', ''Collector''],
              map td_cell [''2024-01-05'', ''1,000.00'', ''0'', ''50'', ''Ana'']]\<rparr>"

text \<open>The record of the data row of \<^const>\<open>sample_table\<close>.\<close>

definition sample_record :: pydict where
  "sample_record =
     [(''Date'', ''2024-01-05''), (''Principal'', ''1,000.00''), (''Pen'', ''0''), (''CBU'', ''50''),
      (''Collector'', ''Ana''), (''Principal_PassBook'', []), (''Principal_Variance'', []),
      (''CBU_PassBook'', []), (''CBU_Variance'', []), (''CBU_withdraw_PassBook'', []),
      (''CBU_withdraw_Variance'', [])]"

text \<open>A table with three mapped header positions and two distinct target columns.\<close>

definition two_target_table :: table where
  "two_target_table =
     \<lparr>table_text = ''Payment receiptDateDatePrincipal2024-01-052024-01-06100'',
      rows = [map th_cell [''Date'', ''Date'', ''Principal''],
              map td_cell [''2024-01-05'', ''2024-01-06'', ''100'']]\<rparr>"

text \<open>A table whose header row is its third row, after a title row and a row of figures.\<close>

definition late_header_table :: table where
  "late_header_table =
     \<lparr>table_text = ''Payment history2024-01-051005DatePrincipalPen'',
      rows = [[td_cell ''Payment history''],
              map td_cell [''2024-01-05'', ''100'', ''5''],
              map th_cell [''Date'', ''Principal'', ''Pen'']]\<rparr>"

text \<open>Element texts for the fallback extractor, and a page with a table and these elements.\<close>

definition sample_elements :: "string list" where
  "sample_elements = [''Date: 2020'', ''x'', ''Pen : 3'', ''Collector: Bob'']"

definition sample_page :: page where
  "sample_page = \<lparr>tables = [sample_table], elements = sample_elements\<rparr>"

definition fallback_page :: page where
  "fallback_page = \<lparr>tables = [two_target_table], elements = sample_elements\<rparr>"

text \<open>\<^const>\<open>sample_record\<close> after the edit of its \<open>Principal_PassBook\<close> to \<open>5\<close>.\<close>

definition edited_record :: pydict where
  "edited_record =
     [(''Date'', ''2024-01-05''), (''Principal'', ''1,000.00''), (''Pen'', ''0''), (''CBU'', ''50''),
      (''Collector'', ''Ana''), (''Principal_PassBook'', ''5''), (''Principal_Variance'', []),
      (''CBU_PassBook'', []), (''CBU_Variance'', []), (''CBU_withdraw_PassBook'', []),
      (''CBU_withdraw_Variance'', [])]"

section \<open>Deduplication keeps first occurrences\<close>

lemma dedup_loop_acc: "dedup_loop seen u xs = u @ dedup_loop seen [] xs"
proof (induction xs arbitrary: seen u)
  case Nil
  show ?case by simp
next
  case (Cons x xs)
  show ?case
    using Cons.IH [of "insert (signature x) seen" "u @ [x]"]
      Cons.IH [of "insert (signature x) seen" "[x]"] Cons.IH [of seen u]
    by (simp add: Let_def)
qed

lemma dedup_loop_Cons:
  "dedup_loop seen [] (x # xs) =
     (if signature x \<in> seen then dedup_loop seen [] xs
      else x # dedup_loop (insert (signature x) seen) [] xs)"
  using dedup_loop_acc [of "insert (signature x) seen" "[x]" xs] by (simp add: Let_def)

lemma upt_Suc_shift: "[0..<Suc n] = 0 # map Suc [0..<n]"
  by (simp add: upt_conv_Cons map_Suc_upt del: upt_Suc)

text \<open>
  The loop keeps the item at position \<open>i\<close> exactly when its signature is neither in
  \<open>seen\<close> nor the signature of an earlier item.
\<close>

lemma dedup_loop_index:
  "dedup_loop seen [] xs =
     map ((!) xs) (filter (\<lambda>i. signature (xs ! i) \<notin> seen \<and>
                            (\<forall>j<i. signature (xs ! j) \<noteq> signature (xs ! i)))
                     [0..<length xs])"
proof (induction xs arbitrary: seen)
  case Nil
  show ?case by simp
next
  case (Cons x xs)
  have shift: "\<And>P. map ((!) (x # xs)) (filter P (map Suc [0..<length xs])) =
      map ((!) xs) (filter (\<lambda>i. P (Suc i)) [0..<length xs])"
    by (simp add: filter_map comp_def)
  show ?case
  proof (cases "signature x \<in> seen")
    case True
    have "\<And>i. (signature (xs ! i) \<notin> seen \<and>
            (\<forall>j<Suc i. signature ((x # xs) ! j) \<noteq> signature (xs ! i)))
        = (signature (xs ! i) \<notin> seen \<and> (\<forall>j<i. signature (xs ! j) \<noteq> signature (xs ! i)))"
      using True by (auto simp: All_less_Suc2)
    then show ?thesis
      using True Cons.IH [of seen]
      by (simp add: dedup_loop_Cons upt_Suc_shift shift del: upt_Suc dedup_loop.simps)
  next
    case False
    have "\<And>i. (signature (xs ! i) \<notin> seen \<and>
            (\<forall>j<Suc i. signature ((x # xs) ! j) \<noteq> signature (xs ! i)))
        = (signature (xs ! i) \<notin> insert (signature x) seen \<and>
            (\<forall>j<i. signature (xs ! j) \<noteq> signature (xs ! i)))"
      by (auto simp: All_less_Suc2)
    then show ?thesis
      using False Cons.IH [of "insert (signature x) seen"]
      by (simp add: dedup_loop_Cons upt_Suc_shift shift del: upt_Suc dedup_loop.simps)
  qed
qed

text \<open>
  For dicts (no key twice) equal signatures mean the same items, whatever the order of
  insertion.
\<close>

lemma signature_eq_iff:
  assumes "distinct (map fst a)" "distinct (map fst b)"
  shows "signature a = signature b \<longleftrightarrow> set a = set b"
proof
  assume "signature a = signature b"
  then have "set (sort a) = set (sort b)" by (simp add: signature_def)
  then show "set a = set b" by simp
next
  assume s: "set a = set b"
  have "distinct a" "distinct b" using assms by (simp_all add: distinct_map)
  then have "mset a = mset b" using s by (simp add: set_eq_iff_mset_eq_distinct)
  then have "sort a = sort b" by (metis properties_for_sort sorted_sort mset_sort)
  then show "signature a = signature b" by (simp add: signature_def)
qed

text \<open>
  Claim C4. Deduplication returns, in their order, exactly the records of the input that
  no earlier record matches, where two records match when their signatures (the sorted
  (key, value) tuples) are equal. So a record followed by a match of it collapses to the
  first one, and for records that have no key twice a match is a record with the same
  fields and values.
\<close>

theorem remove_duplicates_first_occurrences:
  "remove_duplicates data =
     map ((!) data)
       (filter (\<lambda>i. \<forall>j<i. signature (data ! j) \<noteq> signature (data ! i)) [0..<length data])
   \<and> (signature a = signature b \<longrightarrow> remove_duplicates [a, b] = [a])
   \<and> (distinct (map fst a) \<and> distinct (map fst b) \<longrightarrow>
        (signature a = signature b \<longleftrightarrow> set a = set b))"
  using dedup_loop_index [of "{}" data] signature_eq_iff [of a b]
  by (simp add: remove_duplicates_def Let_def)

theorem remove_duplicates_first_occurrences_witness:
  "remove_duplicates [[(''Date'', ''1''), (''Pen'', ''2'')], [(''Pen'', ''2''), (''Date'', ''1'')],
       [(''Date'', ''2'')], [(''Date'', ''1''), (''Pen'', ''2'')]]
     = [[(''Date'', ''1''), (''Pen'', ''2'')], [(''Date'', ''2'')]]
   \<and> signature [(''Date'', ''1''), (''Pen'', ''2'')] = signature [(''Pen'', ''2''), (''Date'', ''1'')]
   \<and> remove_duplicates [[(''Date'', ''1''), (''Pen'', ''2'')], [(''Pen'', ''2''), (''Date'', ''1'')]]
     = [[(''Date'', ''1''), (''Pen'', ''2'')]]
   \<and> distinct (map fst [(''Date'', ''1''), (''Pen'', ''2'')])
   \<and> distinct (map fst [(''Pen'', ''2''), (''Date'', ''1'')])
   \<and> set [(''Date'', ''1''), (''Pen'', ''2'')] = set [(''Pen'', ''2''), (''Date'', ''1'')]"
  using remove_duplicates_first_occurrences
    [of "[[(''Date'', ''1''), (''Pen'', ''2'')], [(''Pen'', ''2''), (''Date'', ''1'')],
         [(''Date'', ''2'')], [(''Date'', ''1''), (''Pen'', ''2'')]]"
        "[(''Date'', ''1''), (''Pen'', ''2'')]" "[(''Pen'', ''2''), (''Date'', ''1'')]"]
  by (simp add: signature_def upt_rec All_less_Suc numeral_eq_Suc insort_key.simps)

section \<open>Dictionaries, header mapping and row extraction\<close>

lemma dict_set_keys: "fst ` set (dict_set d k v) = insert k (fst ` set d)"
proof (induction d)
  case Nil
  show ?case by simp
next
  case (Cons p d)
  obtain a b where p: "p = (a, b)" by (cases p)
  show ?case
  proof (cases "a = k")
    case True
    then show ?thesis using p by simp
  next
    case False
    then show ?thesis using p Cons.IH by (simp add: insert_commute)
  qed
qed

lemma dict_set_distinct: "distinct (map fst d) \<Longrightarrow> distinct (map fst (dict_set d k v))"
proof (induction d)
  case Nil
  show ?case by simp
next
  case (Cons p d)
  have "fst ` set (dict_set d k v) = insert k (fst ` set d)" by (rule dict_set_keys)
  with Cons show ?case by (cases p) auto
qed

lemma dict_set_items: "set (dict_set d k v) \<subseteq> insert (k, v) (set d)"
proof (induction d)
  case Nil
  show ?case by simp
next
  case (Cons p d)
  obtain a b where p: "p = (a, b)" by (cases p)
  show ?case using p Cons.IH by (cases "a = k") auto
qed

lemma dict_set_length: "length d \<le> length (dict_set d k v) \<and> length (dict_set d k v) \<le> Suc (length d)"
  by (induction d) auto

lemma dict_set_new: "k \<notin> fst ` set d \<Longrightarrow> dict_set d k v = d @ [(k, v)]"
  by (induction d) auto

lemma map_of_dict_set: "map_of (dict_set d k v) = (map_of d)(k \<mapsto> v)"
  by (induction d) (auto simp: fun_eq_iff)

lemma map_header_range:
  "map_header h \<in> {None, Some ''Date'', Some ''Receipt No'', Some ''Principal'', Some ''Pen'',
     Some ''CBU'', Some ''CBU withdraw'', Some ''Collector''}"
  by (simp add: map_header_def Let_def)

lemma map_header_target: "map_header h = Some t \<Longrightarrow> t \<in> set target_columns \<and> t \<noteq> []"
  using map_header_range [of h] by (auto simp: target_columns_def)

lemma map_headers_from_target:
  "(i, t) \<in> set (map_headers_from n hs) \<Longrightarrow> t \<in> set target_columns"
  by (induction hs arbitrary: n) (auto split: option.splits dest: map_header_target)

lemma fill_row_data_step:
  "fill_row_data m i (c # cells) rd =
     fill_row_data m (Suc i) cells
       (case map_of m i of
          Some t \<Rightarrow> if t \<noteq> [] \<and> clean_text (cell_text c) \<noteq> []
                    then dict_set rd t (clean_text (cell_text c)) else rd
        | None \<Rightarrow> rd)"
  by (simp add: Let_def split: option.splits)

lemma fill_row_data_keys:
  "fst ` set (fill_row_data m i cells rd) \<subseteq> fst ` set rd \<union> snd ` set m"
proof (induction cells arbitrary: i rd)
  case Nil
  show ?case by simp
next
  case (Cons c cells)
  let ?rd = "case map_of m i of
          Some t \<Rightarrow> if t \<noteq> [] \<and> clean_text (cell_text c) \<noteq> []
                    then dict_set rd t (clean_text (cell_text c)) else rd
        | None \<Rightarrow> rd"
  have "fst ` set ?rd \<subseteq> fst ` set rd \<union> snd ` set m"
  proof (cases "map_of m i")
    case None
    then show ?thesis by simp
  next
    case (Some t)
    then have "(i, t) \<in> set m" by (rule map_of_SomeD)
    then have "t \<in> snd ` set m" by force
    then show ?thesis using Some by (simp add: dict_set_keys)
  qed
  moreover have "fst ` set (fill_row_data m (Suc i) cells ?rd) \<subseteq> fst ` set ?rd \<union> snd ` set m"
    by (rule Cons.IH)
  ultimately show ?case unfolding fill_row_data_step by blast
qed

lemma fill_row_data_distinct:
  "distinct (map fst rd) \<Longrightarrow> distinct (map fst (fill_row_data m i cells rd))"
  by (induction cells arbitrary: i rd) (auto simp: Let_def dict_set_distinct split: option.splits)

lemma fill_row_data_items:
  "(k, v) \<in> set (fill_row_data m i cells rd) \<Longrightarrow>
     (k, v) \<in> set rd \<or>
     (\<exists>j<length cells. map_of m (i + j) = Some k \<and> v = clean_text (cell_text (cells ! j)) \<and> v \<noteq> [])"
proof (induction cells arbitrary: i rd)
  case Nil
  then show ?case by simp
next
  case (Cons c cells)
  let ?v = "clean_text (cell_text c)"
  show ?case
  proof (cases "\<exists>t. map_of m i = Some t \<and> t \<noteq> [] \<and> ?v \<noteq> []")
    case True
    then obtain t where t: "map_of m i = Some t" "t \<noteq> []" "?v \<noteq> []" by blast
    then have "(k, v) \<in> set (fill_row_data m (Suc i) cells (dict_set rd t ?v))"
      using Cons.prems by (simp add: Let_def)
    from Cons.IH [OF this] show ?thesis
    proof
      assume "(k, v) \<in> set (dict_set rd t ?v)"
      then have "(k, v) = (t, ?v) \<or> (k, v) \<in> set rd" using dict_set_items [of rd t ?v] by auto
      then show ?thesis using t by (auto intro: exI [of _ 0])
    next
      assume "\<exists>j<length cells. map_of m (Suc i + j) = Some k \<and>
          v = clean_text (cell_text (cells ! j)) \<and> v \<noteq> []"
      then obtain j where "j < length cells" "map_of m (Suc i + j) = Some k"
        "v = clean_text (cell_text (cells ! j))" "v \<noteq> []" by blast
      then show ?thesis by (auto intro!: exI [of _ "Suc j"])
    qed
  next
    case False
    then have "(k, v) \<in> set (fill_row_data m (Suc i) cells rd)"
      using Cons.prems by (auto simp: Let_def split: option.splits if_splits)
    from Cons.IH [OF this] show ?thesis
    proof
      assume "(k, v) \<in> set rd" then show ?thesis by simp
    next
      assume "\<exists>j<length cells. map_of m (Suc i + j) = Some k \<and>
          v = clean_text (cell_text (cells ! j)) \<and> v \<noteq> []"
      then obtain j where "j < length cells" "map_of m (Suc i + j) = Some k"
        "v = clean_text (cell_text (cells ! j))" "v \<noteq> []" by blast
      then show ?thesis by (auto intro!: exI [of _ "Suc j"])
    qed
  qed
qed

lemma target_not_calculated: "k \<in> set target_columns \<Longrightarrow> k \<notin> set calculated_columns"
  by (auto simp: target_columns_def calculated_columns_def)

lemma add_calculated_append:
  assumes "fst ` set rd \<subseteq> set target_columns"
  shows "add_calculated rd = rd @ map (\<lambda>c. (c, [])) calculated_columns"
proof -
  have k: "\<And>c. c \<in> set calculated_columns \<Longrightarrow> c \<notin> fst ` set rd"
    using assms target_not_calculated by blast
  have 1: "dict_set rd ''Principal_PassBook'' [] = rd @ [(''Principal_PassBook'', [])]"
    using k by (simp add: dict_set_new calculated_columns_def)
  have 2: "dict_set (rd @ [(''Principal_PassBook'', [])]) ''Principal_Variance'' [] =
      rd @ [(''Principal_PassBook'', []), (''Principal_Variance'', [])]"
    using k by (simp add: dict_set_new calculated_columns_def)
  have 3: "dict_set (rd @ [(''Principal_PassBook'', []), (''Principal_Variance'', [])])
      ''CBU_PassBook'' [] =
      rd @ [(''Principal_PassBook'', []), (''Principal_Variance'', []), (''CBU_PassBook'', [])]"
    using k by (simp add: dict_set_new calculated_columns_def)
  have 4: "dict_set (rd @ [(''Principal_PassBook'', []), (''Principal_Variance'', []),
        (''CBU_PassBook'', [])]) ''CBU_Variance'' [] =
      rd @ [(''Principal_PassBook'', []), (''Principal_Variance'', []), (''CBU_PassBook'', []),
        (''CBU_Variance'', [])]"
    using k by (simp add: dict_set_new calculated_columns_def)
  have 5: "dict_set (rd @ [(''Principal_PassBook'', []), (''Principal_Variance'', []),
        (''CBU_PassBook'', []), (''CBU_Variance'', [])]) ''CBU_withdraw_PassBook'' [] =
      rd @ [(''Principal_PassBook'', []), (''Principal_Variance'', []), (''CBU_PassBook'', []),
        (''CBU_Variance'', []), (''CBU_withdraw_PassBook'', [])]"
    using k by (simp add: dict_set_new calculated_columns_def)
  have 6: "dict_set (rd @ [(''Principal_PassBook'', []), (''Principal_Variance'', []),
        (''CBU_PassBook'', []), (''CBU_Variance'', []), (''CBU_withdraw_PassBook'', [])])
        ''CBU_withdraw_Variance'' [] =
      rd @ [(''Principal_PassBook'', []), (''Principal_Variance'', []), (''CBU_PassBook'', []),
        (''CBU_Variance'', []), (''CBU_withdraw_PassBook'', []), (''CBU_withdraw_Variance'', [])]"
    using k by (simp add: dict_set_new calculated_columns_def)
  show ?thesis
    unfolding add_calculated_def 1 2 3 4 5 6 by (simp add: calculated_columns_def)
qed

lemma extract_rows_origin:
  "r \<in> set (extract_rows m hs drows) \<Longrightarrow>
     \<exists>cells\<in>set drows. length cells = length hs \<and> 3 \<le> length (fill_row_data m 0 cells []) \<and>
        r = add_calculated (fill_row_data m 0 cells [])"
  by (induction drows) (auto simp: Let_def split: if_splits)

lemma process_table_origin:
  assumes "r \<in> set (process_table t)"
  shows "\<exists>cells\<in>set (rows t). length cells = length (fst (find_header (rows t))) \<and>
     3 \<le> length (fill_row_data (map_headers_to_targets (fst (find_header (rows t)))) 0 cells []) \<and>
     r = add_calculated (fill_row_data (map_headers_to_targets (fst (find_header (rows t)))) 0 cells [])"
proof -
  obtain hs hr where f: "find_header (rows t) = (hs, hr)" by (cases "find_header (rows t)")
  have "r \<in> set (extract_rows (map_headers_to_targets hs) hs
      (if hr \<noteq> None then drop 1 (rows t) else rows t))"
    using assms f by (simp add: process_table_def Let_def split: if_splits)
  from extract_rows_origin [OF this] obtain cells where
    c: "cells \<in> set (if hr \<noteq> None then drop 1 (rows t) else rows t)"
      "length cells = length hs" "3 \<le> length (fill_row_data (map_headers_to_targets hs) 0 cells [])"
      "r = add_calculated (fill_row_data (map_headers_to_targets hs) 0 cells [])" by blast
  have "cells \<in> set (rows t)" using c(1) by (auto split: if_splits dest: in_set_dropD)
  then show ?thesis using c f by auto
qed

section \<open>Accepted tables and their records\<close>

lemma sample_table_eval:
  "process_table sample_table = [sample_record]"
  by code_simp

lemma sample_table_headers:
  "fst (find_header (rows sample_table)) = [''Date'', ''Principal'', ''Pen'', ''CBU'', ''Collector'']"
  by code_simp

lemma sample_table_mapping:
  "map_headers_to_targets [''Date'', ''Principal'', ''Pen'', ''CBU'', ''Collector''] =
     [(0, ''Date''), (1, ''Principal''), (2, ''Pen''), (3, ''CBU''), (4, ''Collector'')]"
  by code_simp

lemma two_target_table_headers:
  "fst (find_header (rows two_target_table)) = [''Date'', ''Date'', ''Principal'']"
  by code_simp

lemma two_target_mapping:
  "map_headers_to_targets [''Date'', ''Date'', ''Principal''] =
     [(0, ''Date''), (1, ''Date''), (2, ''Principal'')]"
  by code_simp

lemma process_table_targets:
  assumes "process_table t \<noteq> []"
  shows "3 \<le> card (snd ` set (map_headers_to_targets (fst (find_header (rows t)))))"
proof -
  let ?m = "map_headers_to_targets (fst (find_header (rows t)))"
  from assms obtain r where "r \<in> set (process_table t)" by (cases "process_table t") auto
  from process_table_origin [OF this] obtain cells where
    c: "3 \<le> length (fill_row_data ?m 0 cells [])" by blast
  let ?rd = "fill_row_data ?m 0 cells []"
  have d: "distinct (map fst ?rd)" by (rule fill_row_data_distinct) simp
  have "fst ` set ?rd \<subseteq> snd ` set ?m" using fill_row_data_keys [of ?m 0 cells "[]"] by simp
  then have "card (fst ` set ?rd) \<le> card (snd ` set ?m)" by (intro card_mono) simp_all
  moreover have "card (fst ` set ?rd) = length ?rd" using distinct_card [OF d] by simp
  ultimately show ?thesis using c by simp
qed

text \<open>
  Claim C1. A table yields records only if its headers were mapped to at least 3 distinct
  target columns; a table whose headers map to 2 distinct target columns or fewer yields
  no record. (The test of \<open>_process_table\<close> on the mapping counts mapped header positions;
  the rows of a table that passes it with fewer than 3 distinct targets all fail the test
  on the number of fields.) Every mapped column is a target column.
\<close>

theorem process_table_needs_three_targets:
  "(process_table t \<noteq> [] \<longrightarrow>
      3 \<le> card (snd ` set (map_headers_to_targets (fst (find_header (rows t)))))) \<and>
   (card (snd ` set (map_headers_to_targets (fst (find_header (rows t))))) \<le> 2 \<longrightarrow>
      process_table t = []) \<and>
   snd ` set (map_headers_to_targets hs) \<subseteq> set target_columns"
proof -
  have "snd ` set (map_headers_to_targets hs) \<subseteq> set target_columns"
    unfolding map_headers_to_targets_def using map_headers_from_target by force
  then show ?thesis using process_table_targets [of t] by fastforce
qed

theorem process_table_needs_three_targets_witness:
  "process_table sample_table \<noteq> [] \<and>
   3 \<le> card (snd ` set (map_headers_to_targets (fst (find_header (rows sample_table))))) \<and>
   card (snd ` set (map_headers_to_targets (fst (find_header (rows two_target_table))))) \<le> 2 \<and>
   process_table two_target_table = []"
  using process_table_needs_three_targets [of sample_table]
    process_table_needs_three_targets [of two_target_table]
  by (simp add: sample_table_eval two_target_table_headers two_target_mapping)

text \<open>
  Claim C2. Every record that \<open>_process_table\<close> emits comes from a row of the table with
  as many cells as there are headers; it consists of at least 3 target fields, each the
  non-empty cleaned text of a cell of that row in a column mapped to the field's name,
  followed by exactly the six calculated columns, each with the empty string.
\<close>

theorem process_table_records:
  "r \<in> set (process_table t) \<Longrightarrow>
   \<exists>cells\<in>set (rows t). \<exists>row_data.
      length cells = length (fst (find_header (rows t))) \<and>
      r = row_data @ map (\<lambda>c. (c, [])) calculated_columns \<and>
      3 \<le> length row_data \<and> distinct (map fst row_data) \<and>
      (\<forall>(k, v)\<in>set row_data. k \<in> set target_columns \<and> v \<noteq> [] \<and>
         (\<exists>i<length cells.
            map_of (map_headers_to_targets (fst (find_header (rows t)))) i = Some k \<and>
            v = clean_text (cell_text (cells ! i))))"
proof -
  assume "r \<in> set (process_table t)"
  let ?m = "map_headers_to_targets (fst (find_header (rows t)))"
  from process_table_origin [OF \<open>r \<in> set (process_table t)\<close>] obtain cells where
    c: "cells \<in> set (rows t)" "length cells = length (fst (find_header (rows t)))"
       "3 \<le> length (fill_row_data ?m 0 cells [])"
       "r = add_calculated (fill_row_data ?m 0 cells [])" by blast
  let ?rd = "fill_row_data ?m 0 cells []"
  have m: "snd ` set ?m \<subseteq> set target_columns"
    unfolding map_headers_to_targets_def using map_headers_from_target by force
  have keys: "fst ` set ?rd \<subseteq> set target_columns"
    using fill_row_data_keys [of ?m 0 cells "[]"] m by auto
  have d: "distinct (map fst ?rd)" by (rule fill_row_data_distinct) simp
  have items: "\<forall>(k, v)\<in>set ?rd. k \<in> set target_columns \<and> v \<noteq> [] \<and>
         (\<exists>i<length cells. map_of ?m i = Some k \<and> v = clean_text (cell_text (cells ! i)))"
  proof (clarify)
    fix k v assume kv: "(k, v) \<in> set ?rd"
    from fill_row_data_items [OF kv] obtain j where
      "j < length cells" "map_of ?m j = Some k" "v = clean_text (cell_text (cells ! j))" "v \<noteq> []"
      by auto
    moreover have "k \<in> set target_columns" using kv keys by force
    ultimately show "k \<in> set target_columns \<and> v \<noteq> [] \<and>
         (\<exists>i<length cells. map_of ?m i = Some k \<and> v = clean_text (cell_text (cells ! i)))"
      by blast
  qed
  have "r = ?rd @ map (\<lambda>c. (c, [])) calculated_columns"
    using c(4) add_calculated_append [OF keys] by simp
  with c d items show ?thesis by blast
qed

theorem process_table_records_witness:
  "sample_record \<in> set (process_table sample_table) \<and>
   (\<exists>cells\<in>set (rows sample_table). \<exists>row_data.
      length cells = length (fst (find_header (rows sample_table))) \<and>
      sample_record = row_data @ map (\<lambda>c. (c, [])) calculated_columns \<and>
      3 \<le> length row_data \<and> distinct (map fst row_data) \<and>
      (\<forall>(k, v)\<in>set row_data. k \<in> set target_columns \<and> v \<noteq> [] \<and>
         (\<exists>i<length cells.
            map_of (map_headers_to_targets (fst (find_header (rows sample_table)))) i = Some k \<and>
            v = clean_text (cell_text (cells ! i)))))"
proof -
  have p: "sample_record \<in> set (process_table sample_table)"
    by (simp add: sample_table_eval)
  from process_table_records [OF p] p show ?thesis by blast
qed


section \<open>Classifier and header mapper\<close>

lemma is_payment_table_card:
  "is_payment_table text \<longleftrightarrow> 4 \<le> card {k \<in> set payment_indicators. str_in k text}"
proof -
  have d: "distinct payment_indicators" by (simp add: payment_indicators_def)
  have "card {k \<in> set payment_indicators. str_in k text} =
      length (filter (\<lambda>k. str_in k text) payment_indicators)"
    using distinct_card [of "filter (\<lambda>k. str_in k text) payment_indicators"] d by simp
  then show ?thesis by (simp add: is_payment_table_def)
qed

lemma map_header_five:
  "map_header ''Date'' = Some ''Date''" "map_header ''Principal'' = Some ''Principal''"
  "map_header ''Pen'' = Some ''Pen''" "map_header ''CBU'' = Some ''CBU''"
  "map_header ''Collector'' = Some ''Collector''"
  by code_simp+

lemma map_headers_from_five:
  "set hs \<subseteq> {''Date'', ''Principal'', ''Pen'', ''CBU'', ''Collector''} \<Longrightarrow>
     map_headers_from n hs = zip [n..<n + length hs] hs"
proof (induction hs arbitrary: n)
  case Nil
  show ?case by simp
next
  case (Cons h hs)
  then have h: "map_header h = Some h" using map_header_five by auto
  have "n < n + length (h # hs)" by simp
  from upt_conv_Cons [OF this]
  have "[n..<n + length (h # hs)] = n # [Suc n..<Suc n + length hs]" by simp
  then show ?case using h Cons by simp
qed

text \<open>
  Claim C3. The classifier accepts a lower-cased table text exactly when at least 4
  distinct indicator keywords occur in it. For headers that are exactly Date, Principal,
  Pen, CBU and Collector (in any order) and a text with at least 4 indicators, the
  classifier accepts and the header mapper maps every header position to the target
  column of that name.
\<close>

theorem classifier_and_five_headers:
  "(is_payment_table tt \<longleftrightarrow> 4 \<le> card {k \<in> set payment_indicators. str_in k tt}) \<and>
   (set hs = {''Date'', ''Principal'', ''Pen'', ''CBU'', ''Collector''} \<and>
    4 \<le> card {k \<in> set payment_indicators. str_in k tt} \<longrightarrow>
      is_payment_table tt \<and> map_headers_to_targets hs = zip [0..<length hs] hs)"
  using is_payment_table_card [of tt] map_headers_from_five [of hs 0]
  by (simp add: map_headers_to_targets_def)

lemma sample_indicators:
  "{k \<in> set payment_indicators. str_in k (lower (table_text sample_table))} =
     {''date'', ''principal'', ''collector'', ''pen'', ''cbu''}"
proof -
  have "filter (\<lambda>k. str_in k (lower (table_text sample_table))) payment_indicators =
      [''date'', ''principal'', ''collector'', ''pen'', ''cbu'']" by code_simp
  then have "set (filter (\<lambda>k. str_in k (lower (table_text sample_table))) payment_indicators) =
      set [''date'', ''principal'', ''collector'', ''pen'', ''cbu'']" by simp
  then show ?thesis by simp
qed

theorem classifier_and_five_headers_witness:
  "set [''Date'', ''Principal'', ''Pen'', ''CBU'', ''Collector''] =
     {''Date'', ''Principal'', ''Pen'', ''CBU'', ''Collector''} \<and>
   4 \<le> card {k \<in> set payment_indicators. str_in k (lower (table_text sample_table))} \<and>
   is_payment_table (lower (table_text sample_table)) \<and>
   map_headers_to_targets [''Date'', ''Principal'', ''Pen'', ''CBU'', ''Collector''] =
     [(0, ''Date''), (1, ''Principal''), (2, ''Pen''), (3, ''CBU''), (4, ''Collector'')]"
proof -
  have c: "4 \<le> card {k \<in> set payment_indicators. str_in k (lower (table_text sample_table))}"
    unfolding sample_indicators by simp
  have s: "set [''Date'', ''Principal'', ''Pen'', ''CBU'', ''Collector''] =
     {''Date'', ''Principal'', ''Pen'', ''CBU'', ''Collector''}" by simp
  show ?thesis
    using classifier_and_five_headers
      [of "lower (table_text sample_table)" "[''Date'', ''Principal'', ''Pen'', ''CBU'', ''Collector'']"]
      c s
    by (simp add: upt_rec)
qed

section \<open>The text cleaner and removed characters\<close>

text \<open>What the cleaner does guarantee: only whitelisted characters, and no white space at
  either end.\<close>

lemma strip_subset: "set (strip s) \<subseteq> set s"
proof -
  have "set (dropWhile is_space (rev (dropWhile is_space s))) \<subseteq> set (rev (dropWhile is_space s))"
    by (auto dest: set_dropWhileD)
  also have "\<dots> \<subseteq> set s" by (auto dest: set_dropWhileD)
  finally show ?thesis by (simp add: strip_def)
qed

lemma clean_text_allowed: "c \<in> set (clean_text s) \<Longrightarrow> allowed_char c"
  using strip_subset [of "filter allowed_char (str_join '' '' (split_ws s))"]
  by (auto simp: clean_text_def split: if_splits)

lemma last_dropWhile_nonempty: "dropWhile P xs \<noteq> [] \<Longrightarrow> last (dropWhile P xs) = last xs"
  by (induction xs) (auto split: if_splits)

lemma strip_edges:
  assumes "strip s \<noteq> []"
  shows "\<not> is_space (hd (strip s)) \<and> \<not> is_space (last (strip s))"
proof -
  let ?a = "dropWhile is_space s"
  let ?b = "dropWhile is_space (rev ?a)"
  have b: "?b \<noteq> []" using assms by (simp add: strip_def)
  have a: "?a \<noteq> []"
  proof
    assume "?a = []"
    then have "?b = []" by (simp only: rev.simps dropWhile.simps)
    with b show False by blast
  qed
  have "last (strip s) = hd ?b" using b by (simp add: strip_def last_rev)
  moreover have "\<not> is_space (hd ?b)" using b by (rule hd_dropWhile)
  moreover have "hd (strip s) = last ?b" using b by (simp add: strip_def hd_rev)
  moreover have "last ?b = last (rev ?a)" using b by (rule last_dropWhile_nonempty)
  moreover have "last (rev ?a) = hd ?a" using a by (simp add: last_rev)
  moreover have "\<not> is_space (hd ?a)" using a by (rule hd_dropWhile)
  ultimately show ?thesis by simp
qed

lemma clean_text_edges:
  "clean_text s \<noteq> [] \<Longrightarrow> \<not> is_space (hd (clean_text s)) \<and> \<not> is_space (last (clean_text s))"
  using strip_edges [of "filter allowed_char (str_join '' '' (split_ws s))"]
  by (simp add: clean_text_def split: if_splits)

text \<open>
  Claim C7. The cleaner collapses white space before it removes the characters outside
  the whitelist, so a removed character that stood between two spaces leaves both: the
  cleaned text of \<open>a # b\<close> holds two neighbouring spaces.
\<close>

theorem clean_text_leaves_space_run:
  "clean_text ''a # b'' = ''a  b'' \<and> has_space_run (clean_text ''a # b'')"
  by code_simp

section \<open>The header row among the data rows\<close>

text \<open>
  Claim C8. The data rows are all rows but the first, wherever the header row was found.
  In \<^const>\<open>late_header_table\<close> the header row is the third row: the row of figures
  before it and the header row itself are both emitted as records.
\<close>

theorem late_header_row_emitted:
  "find_header (rows late_header_table) =
     ([''Date'', ''Principal'', ''Pen''], Some (map th_cell [''Date'', ''Principal'', ''Pen''])) \<and>
   process_table late_header_table =
     [[(''Date'', ''2024-01-05''), (''Principal'', ''100''), (''Pen'', ''5''),
       (''Principal_PassBook'', []), (''Principal_Variance'', []), (''CBU_PassBook'', []),
       (''CBU_Variance'', []), (''CBU_withdraw_PassBook'', []), (''CBU_withdraw_Variance'', [])],
      [(''Date'', ''Date''), (''Principal'', ''Principal''), (''Pen'', ''Pen''),
       (''Principal_PassBook'', []), (''Principal_Variance'', []), (''CBU_PassBook'', []),
       (''CBU_Variance'', []), (''CBU_withdraw_PassBook'', []), (''CBU_withdraw_Variance'', [])]]"
  by code_simp

section \<open>Fallback structured extractor: its records\<close>

lemma match_target_Some:
  "match_target key = Some t \<Longrightarrow> t \<in> set target_columns \<and> str_in (lower t) (lower key)"
  unfolding match_target_def by (auto simp: find_Some_iff)

lemma read_element_length:
  "length cur \<le> length (read_element cur e) \<and> length (read_element cur e) \<le> Suc (length cur)"
  using dict_set_length by (simp add: read_element_def Let_def split: option.splits)

lemma read_element_items:
  assumes "kv \<in> set (read_element cur e)"
  shows "kv \<in> set cur \<or> field_of_element kv e"
proof (cases "CHR '':'' \<in> set (clean_text e)")
  case False
  then show ?thesis using assms by (simp add: read_element_def)
next
  case True
  let ?key = "strip (fst (split_colon (clean_text e)))"
  let ?val = "strip (snd (split_colon (clean_text e)))"
  show ?thesis
  proof (cases "match_target ?key")
    case None
    then show ?thesis using assms True by (simp add: read_element_def Let_def)
  next
    case (Some t)
    then have r: "read_element cur e = dict_set cur t ?val"
      using True by (simp add: read_element_def Let_def)
    have "kv = (t, ?val) \<or> kv \<in> set cur"
      using assms dict_set_items [of cur t ?val] unfolding r by auto
    moreover have "field_of_element (t, ?val) e"
      using match_target_Some [OF Some] True by (simp add: field_of_element_def Let_def)
    ultimately show ?thesis by auto
  qed
qed

lemma structured_loop_inv:
  assumes "length cur \<le> 1" "\<forall>kv\<in>set cur. \<exists>e\<in>E. field_of_element kv e" "set els \<subseteq> E"
    "\<forall>r\<in>set data. length r = 2 \<and> (\<forall>kv\<in>set r. \<exists>e\<in>E. field_of_element kv e)"
  shows "(\<forall>r\<in>set (structured_loop cur data els).
            (length r = 1 \<or> length r = 2) \<and> (\<forall>kv\<in>set r. \<exists>e\<in>E. field_of_element kv e)) \<and>
         (\<forall>r\<in>set (butlast (structured_loop cur data els)). length r = 2)"
  using assms
proof (induction els arbitrary: cur data)
  case Nil
  show ?case
  proof (cases "cur = []")
    case True
    then show ?thesis using Nil.prems(4) by (auto dest: in_set_butlastD)
  next
    case False
    then have "length cur = 1" using Nil.prems(1) by (cases cur) auto
    then show ?thesis using False Nil.prems by (auto simp: butlast_append)
  qed
next
  case (Cons e els)
  let ?cur = "read_element cur e"
  have len: "length ?cur \<le> 2" using read_element_length [of cur e] Cons.prems(1) by simp
  have e: "e \<in> E" using Cons.prems(3) by simp
  have items: "\<forall>kv\<in>set ?cur. \<exists>e\<in>E. field_of_element kv e"
    using read_element_items [of _ cur e] Cons.prems(2) e by blast
  have els: "set els \<subseteq> E" using Cons.prems(3) by simp
  show ?case
  proof (cases "2 \<le> length ?cur")
    case True
    then have l2: "length ?cur = 2" using len by simp
    have d: "\<forall>r\<in>set (data @ [?cur]). length r = 2 \<and> (\<forall>kv\<in>set r. \<exists>e\<in>E. field_of_element kv e)"
      using Cons.prems(4) l2 items by auto
    have "structured_loop cur data (e # els) = structured_loop [] (data @ [?cur]) els"
      using True by (simp add: Let_def)
    then show ?thesis using Cons.IH [of "[]" "data @ [?cur]", OF _ _ els d] by simp
  next
    case False
    then have l1: "length ?cur \<le> 1" by simp
    have "structured_loop cur data (e # els) = structured_loop ?cur data els"
      using False by (simp add: Let_def)
    then show ?thesis using Cons.IH [of ?cur data, OF l1 items els Cons.prems(4)] by simp
  qed
qed

lemma structured_content_records:
  "(\<forall>r\<in>set (extract_from_structured_content els).
      (length r = 1 \<or> length r = 2) \<and> (\<forall>kv\<in>set r. \<exists>e\<in>set els. field_of_element kv e)) \<and>
   (\<forall>r\<in>set (butlast (extract_from_structured_content els)). length r = 2)"
  unfolding extract_from_structured_content_def
  by (rule structured_loop_inv) simp_all

lemma structured_content_keys:
  assumes "r \<in> set (extract_from_structured_content els)"
  shows "fst ` set r \<subseteq> set target_columns"
proof
  fix k assume "k \<in> fst ` set r"
  then obtain v where "(k, v) \<in> set r" by auto
  with assms structured_content_records [of els]
  obtain e where "field_of_element (k, v) e" by blast
  then show "k \<in> set target_columns" by (simp add: field_of_element_def Let_def)
qed

lemma scrape_after_tables:
  "extract_from_tables (tables soup) \<noteq> [] \<Longrightarrow>
     scrape_payment_data soup = remove_duplicates (extract_from_tables (tables soup))"
  by (simp add: scrape_payment_data_def Let_def)

lemma scrape_fallback:
  "extract_from_tables (tables soup) = [] \<Longrightarrow>
     scrape_payment_data soup = remove_duplicates (extract_from_structured_content (elements soup))"
  by (simp add: scrape_payment_data_def Let_def)

text \<open>
  Claim C6, as stated, fails: after the loop the remaining record is appended whenever it
  is not empty, so a page with a single matching pattern gives a record with one field.
\<close>

theorem fallback_single_field_counterexample:
  "extract_from_structured_content [''Date: 2020''] = [[(''Date'', ''2020'')]] \<and>
   length (hd (extract_from_structured_content [''Date: 2020''])) < 2"
  by code_simp

text \<open>
  Claim C6, amended. When table extraction yields records the result is their
  deduplication, whatever the elements hold: the fallback extractor contributes only when
  table extraction yields none. Every record it produces has one or two fields, each read
  from a \<open>key: value\<close> pattern whose key contains a target column name (case ignored);
  every record but the last has exactly two fields.
\<close>

theorem fallback_runs_last_and_fields:
  "(extract_from_tables (tables soup) \<noteq> [] \<longrightarrow>
      scrape_payment_data soup = remove_duplicates (extract_from_tables (tables soup))) \<and>
   (\<forall>r\<in>set (extract_from_structured_content els).
      (length r = 1 \<or> length r = 2) \<and> (\<forall>kv\<in>set r. \<exists>e\<in>set els. field_of_element kv e)) \<and>
   (\<forall>r\<in>set (butlast (extract_from_structured_content els)). length r = 2)"
  using scrape_after_tables [of soup] structured_content_records [of els] by blast

lemma sample_elements_eval:
  "extract_from_structured_content sample_elements =
     [[(''Date'', ''2020''), (''Pen'', ''3'')], [(''Collector'', ''Bob'')]]"
  by code_simp

lemma sample_page_tables: "extract_from_tables (tables sample_page) = [sample_record]"
  by (simp add: extract_from_tables_def sample_page_def sample_table_eval)

theorem fallback_runs_last_and_fields_witness:
  "extract_from_tables (tables sample_page) \<noteq> [] \<and>
   scrape_payment_data sample_page = remove_duplicates (extract_from_tables (tables sample_page)) \<and>
   [(''Collector'', ''Bob'')] \<in> set (extract_from_structured_content sample_elements) \<and>
   (\<exists>e\<in>set sample_elements. field_of_element (''Collector'', ''Bob'') e) \<and>
   [(''Date'', ''2020''), (''Pen'', ''3'')] \<in> set (butlast (extract_from_structured_content sample_elements))"
  using fallback_runs_last_and_fields [of sample_page sample_elements]
  by (simp add: sample_elements_eval sample_page_tables)


section \<open>Calculated columns of table and fallback records\<close>

lemma dedup_loop_subset: "set (dedup_loop seen u xs) \<subseteq> set u \<union> set xs"
proof (induction xs arbitrary: seen u)
  case Nil
  show ?case by simp
next
  case (Cons x xs)
  show ?case
    using Cons.IH [of "insert (signature x) seen" "u @ [x]"] Cons.IH [of seen u]
    by (auto simp: Let_def)
qed

lemma remove_duplicates_subset: "set (remove_duplicates data) \<subseteq> set data"
  using dedup_loop_subset [of "{}" "[]" data] by (simp add: remove_duplicates_def)

lemma process_table_shape:
  assumes "r \<in> set (process_table t)"
  shows "\<exists>rd. r = rd @ map (\<lambda>c. (c, [])) calculated_columns \<and> fst ` set rd \<subseteq> set target_columns"
proof -
  let ?m = "map_headers_to_targets (fst (find_header (rows t)))"
  from process_table_origin [OF assms] obtain cells where
    c: "r = add_calculated (fill_row_data ?m 0 cells [])" by blast
  have m: "snd ` set ?m \<subseteq> set target_columns"
    unfolding map_headers_to_targets_def using map_headers_from_target by force
  have keys: "fst ` set (fill_row_data ?m 0 cells []) \<subseteq> set target_columns"
    using fill_row_data_keys [of ?m 0 cells "[]"] m by auto
  show ?thesis using c add_calculated_append [OF keys] keys by blast
qed

lemma process_table_calculated:
  assumes "r \<in> set (process_table t)" "c \<in> set calculated_columns"
  shows "map_of r c = Some []"
proof -
  from process_table_shape [OF assms(1)] obtain rd where
    r: "r = rd @ map (\<lambda>c. (c, [])) calculated_columns" "fst ` set rd \<subseteq> set target_columns"
    by blast
  have "c \<notin> fst ` set rd" using r(2) assms(2) target_not_calculated by blast
  then have "map_of rd c = None" by (simp add: map_of_eq_None_iff)
  moreover have "map_of (map (\<lambda>c. (c, [])) calculated_columns) c = Some []"
    using assms(2) by (simp add: map_of_map_restrict restrict_map_def)
  ultimately show ?thesis unfolding r(1) by (simp add: map_add_def)
qed

text \<open>
  Claim C9. No record of the fallback extractor has any of the six calculated columns,
  and when table extraction yields nothing the scraped records, which then come from the
  fallback extractor, reach the output without them; every record of a table has all six,
  each with the empty string.
\<close>

theorem fallback_records_lack_calculated:
  "(\<forall>r\<in>set (extract_from_structured_content els). \<forall>c\<in>set calculated_columns. map_of r c = None) \<and>
   (extract_from_tables (tables soup) = [] \<longrightarrow>
      (\<forall>r\<in>set (scrape_payment_data soup). \<forall>c\<in>set calculated_columns. map_of r c = None)) \<and>
   (\<forall>r\<in>set (process_table t). \<forall>c\<in>set calculated_columns. map_of r c = Some [])"
proof -
  have a: "\<And>els r c. r \<in> set (extract_from_structured_content els) \<Longrightarrow>
      c \<in> set calculated_columns \<Longrightarrow> map_of r c = None"
  proof -
    fix els r c
    assume "r \<in> set (extract_from_structured_content els)" "c \<in> set calculated_columns"
    then have "c \<notin> fst ` set r" using structured_content_keys target_not_calculated by blast
    then show "map_of r c = None" by (simp add: map_of_eq_None_iff)
  qed
  have b: "extract_from_tables (tables soup) = [] \<longrightarrow>
      (\<forall>r\<in>set (scrape_payment_data soup). \<forall>c\<in>set calculated_columns. map_of r c = None)"
    using a [of _ "elements soup"] remove_duplicates_subset
    by (auto simp: scrape_fallback)
  show ?thesis using a b process_table_calculated by blast
qed

lemma fallback_page_tables: "extract_from_tables (tables fallback_page) = []"
proof -
  have "process_table two_target_table = []" by code_simp
  then show ?thesis by (simp add: extract_from_tables_def fallback_page_def)
qed

lemma fallback_page_eval:
  "scrape_payment_data fallback_page =
     [[(''Date'', ''2020''), (''Pen'', ''3'')], [(''Collector'', ''Bob'')]]"
proof -
  have "remove_duplicates [[(''Date'', ''2020''), (''Pen'', ''3'')], [(''Collector'', ''Bob'')]] =
     [[(''Date'', ''2020''), (''Pen'', ''3'')], [(''Collector'', ''Bob'')]]" by code_simp
  then show ?thesis
    using scrape_fallback [OF fallback_page_tables]
    by (simp add: fallback_page_def sample_elements_eval)
qed

theorem fallback_records_lack_calculated_witness:
  "[(''Collector'', ''Bob'')] \<in> set (extract_from_structured_content sample_elements) \<and>
   ''CBU_Variance'' \<in> set calculated_columns \<and>
   map_of [(''Collector'', ''Bob'')] ''CBU_Variance'' = None \<and>
   extract_from_tables (tables fallback_page) = [] \<and>
   [(''Date'', ''2020''), (''Pen'', ''3'')] \<in> set (scrape_payment_data fallback_page) \<and>
   map_of [(''Date'', ''2020''), (''Pen'', ''3'')] ''Principal_PassBook'' = None \<and>
   sample_record \<in> set (process_table sample_table) \<and>
   map_of sample_record ''CBU_Variance'' = Some []"
  using fallback_records_lack_calculated [of sample_elements fallback_page sample_table]
  by (simp add: sample_elements_eval fallback_page_tables fallback_page_eval sample_table_eval
      calculated_columns_def)

section \<open>The column invariant\<close>

lemma record_ok_iff:
  "record_ok r \<longleftrightarrow> fst ` set r \<subseteq> set target_columns \<union> set calculated_columns"
  by (auto simp: record_ok_def dict_keys_def list_all_iff)

lemma editable_is_calculated: "editable_columns = calculated_columns"
  by (simp add: editable_columns_def calculated_columns_def)

lemma list_update_dict_set_keys:
  assumes "i < length data"
  shows "fst ` set (data[j := dict_set (data ! j) k v] ! i) \<subseteq> insert k (fst ` set (data ! i))"
proof (cases "i = j")
  case True
  then show ?thesis using assms by (simp add: dict_set_keys)
next
  case False
  then show ?thesis by auto
qed

lemma set_field_keys:
  assumes "set_field data idx k v = Inr data'"
  shows "length data' = length data \<and>
     (\<forall>i<length data. fst ` set (data' ! i) \<subseteq> insert k (fst ` set (data ! i)))"
proof -
  let ?j = "if idx < 0 then int (length data) + idx else idx"
  have d: "data' = data[nat ?j := dict_set (data ! nat ?j) k v]"
    using assms by (simp add: set_field_def Let_def split: if_splits)
  show ?thesis unfolding d using list_update_dict_set_keys by simp
qed

lemma apply_updates_keys:
  "apply_updates data idx kvs = Inr data' \<Longrightarrow>
     length data' = length data \<and>
     (\<forall>i<length data. fst ` set (data' ! i) \<subseteq> fst ` set (data ! i) \<union> set editable_columns)"
proof (induction kvs arbitrary: data)
  case Nil
  then show ?case by auto
next
  case (Cons kv kvs)
  obtain k v where kv: "kv = (k, v)" by (cases kv)
  show ?case
  proof (cases "k \<in> set editable_columns")
    case False
    then have "apply_updates data idx kvs = Inr data'" using Cons.prems kv by simp
    from Cons.IH [OF this] show ?thesis .
  next
    case True
    then have step: "apply_updates data idx (kv # kvs) =
        (case set_field data idx k v of Inl e \<Rightarrow> Inl e | Inr d \<Rightarrow> apply_updates d idx kvs)"
      using kv by simp
    show ?thesis
    proof (cases "set_field data idx k v")
      case (Inl e)
      then show ?thesis using step Cons.prems by simp
    next
      case (Inr d1)
      then have a: "apply_updates d1 idx kvs = Inr data'" using step Cons.prems by simp
      note s = set_field_keys [OF Inr]
      note h = Cons.IH [OF a]
      have "length data' = length data" using s h by simp
      moreover have "\<forall>i<length data.
          fst ` set (data' ! i) \<subseteq> fst ` set (data ! i) \<union> set editable_columns"
      proof (intro allI impI)
        fix i assume i: "i < length data"
        have "fst ` set (d1 ! i) \<subseteq> insert k (fst ` set (data ! i))" using s i by simp
        moreover have "fst ` set (data' ! i) \<subseteq> fst ` set (d1 ! i) \<union> set editable_columns"
          using h s i by simp
        ultimately show "fst ` set (data' ! i) \<subseteq> fst ` set (data ! i) \<union> set editable_columns"
          using True by blast
      qed
      ultimately show ?thesis by simp
    qed
  qed
qed

lemma update_rows_keys:
  "update_rows data entries = Inr data' \<Longrightarrow>
     length data' = length data \<and>
     (\<forall>i<length data. fst ` set (data' ! i) \<subseteq> fst ` set (data ! i) \<union> set editable_columns)"
proof (induction entries arbitrary: data)
  case Nil
  then show ?case by auto
next
  case (Cons en entries)
  obtain rk u where en: "en = (rk, u)" by (cases en)
  from Cons.prems en obtain idx where rk: "rk = IntKey idx" by (cases rk) auto
  show ?case
  proof (cases "idx < int (length data)")
    case False
    then have "update_rows data entries = Inr data'" using Cons.prems en rk by simp
    from Cons.IH [OF this] show ?thesis .
  next
    case True
    from Cons.prems en rk True obtain kvs where u: "u = Updates kvs" by (cases u) auto
    have step: "update_rows data (en # entries) =
        (case apply_updates data idx kvs of Inl e \<Rightarrow> Inl e | Inr d \<Rightarrow> update_rows d entries)"
      using en rk u True by simp
    show ?thesis
    proof (cases "apply_updates data idx kvs")
      case (Inl e)
      then show ?thesis using step Cons.prems by simp
    next
      case (Inr d1)
      then have r: "update_rows d1 entries = Inr data'" using step Cons.prems by simp
      note s = apply_updates_keys [OF Inr]
      note h = Cons.IH [OF r]
      have "length data' = length data" using s h by simp
      moreover have "\<forall>i<length data.
          fst ` set (data' ! i) \<subseteq> fst ` set (data ! i) \<union> set editable_columns"
      proof (intro allI impI)
        fix i assume i: "i < length data"
        have "fst ` set (d1 ! i) \<subseteq> fst ` set (data ! i) \<union> set editable_columns"
          using s i by simp
        moreover have "fst ` set (data' ! i) \<subseteq> fst ` set (d1 ! i) \<union> set editable_columns"
          using h s i by simp
        ultimately show "fst ` set (data' ! i) \<subseteq> fst ` set (data ! i) \<union> set editable_columns"
          by blast
      qed
      ultimately show ?thesis by simp
    qed
  qed
qed

lemma update_data_keys:
  assumes "update_data data body = Inr data'"
  shows "length data' = length data \<and>
     (\<forall>i<length data. fst ` set (data' ! i) \<subseteq> fst ` set (data ! i) \<union> set calculated_columns)"
proof -
  from assms obtain entries where "body = Body entries" "update_rows data entries = Inr data'"
    by (cases body) (auto simp: update_data_def)
  from update_rows_keys [OF this(2)] show ?thesis by (simp add: editable_is_calculated)
qed

lemma scrape_record_ok:
  assumes "r \<in> set (scrape_payment_data soup)"
  shows "record_ok r"
proof (cases "extract_from_tables (tables soup) = []")
  case True
  then have "r \<in> set (extract_from_structured_content (elements soup))"
    using assms remove_duplicates_subset by (auto simp: scrape_fallback)
  then show ?thesis using structured_content_keys by (auto simp: record_ok_iff)
next
  case False
  then have "r \<in> set (extract_from_tables (tables soup))"
    using assms remove_duplicates_subset by (auto simp: scrape_after_tables)
  then obtain t where "r \<in> set (process_table t)" by (auto simp: extract_from_tables_def)
  from process_table_shape [OF this] obtain rd where
    rd: "r = rd @ map (\<lambda>c. (c, [])) calculated_columns" "fst ` set rd \<subseteq> set target_columns"
    by blast
  have "fst ` set r = fst ` set rd \<union> set calculated_columns"
    unfolding rd(1) by (simp add: image_Un image_comp comp_def)
  then show ?thesis using rd(2) unfolding record_ok_iff by blast
qed

text \<open>
  Claim C10. Every record returned by scraping has only target and calculated columns as
  keys (its values are strings by type). Deduplication preserves this for every record
  list, and so does every user edit that is stored: it keeps the number of records and
  adds only calculated columns to the keys of a record.
\<close>

theorem column_invariant:
  "(\<forall>r\<in>set (scrape_payment_data soup). record_ok r) \<and>
   (list_all record_ok data \<longrightarrow> list_all record_ok (remove_duplicates data)) \<and>
   (update_data data body = Inr data' \<longrightarrow>
      length data' = length data \<and>
      (\<forall>i<length data. fst ` set (data' ! i) \<subseteq> fst ` set (data ! i) \<union> set calculated_columns) \<and>
      (list_all record_ok data \<longrightarrow> list_all record_ok data'))"
proof -
  have a: "\<forall>r\<in>set (scrape_payment_data soup). record_ok r" using scrape_record_ok by blast
  have b: "list_all record_ok data \<longrightarrow> list_all record_ok (remove_duplicates data)"
    using remove_duplicates_subset [of data] by (auto simp: list_all_iff)
  have c: "update_data data body = Inr data' \<longrightarrow>
      length data' = length data \<and>
      (\<forall>i<length data. fst ` set (data' ! i) \<subseteq> fst ` set (data ! i) \<union> set calculated_columns) \<and>
      (list_all record_ok data \<longrightarrow> list_all record_ok data')"
  proof
    assume u: "update_data data body = Inr data'"
    note k = update_data_keys [OF u]
    have "list_all record_ok data \<longrightarrow> list_all record_ok data'"
    proof
      assume ok: "list_all record_ok data"
      have "\<And>i. i < length data' \<Longrightarrow> record_ok (data' ! i)"
      proof -
        fix i assume i: "i < length data'"
        then have i': "i < length data" using k by simp
        then have "record_ok (data ! i)" using ok by (simp add: list_all_length)
        then have "fst ` set (data ! i) \<subseteq> set target_columns \<union> set calculated_columns"
          by (simp only: record_ok_iff)
        moreover have "fst ` set (data' ! i) \<subseteq> fst ` set (data ! i) \<union> set calculated_columns"
          using k i' by blast
        ultimately have "fst ` set (data' ! i) \<subseteq> set target_columns \<union> set calculated_columns"
          by blast
        then show "record_ok (data' ! i)" by (simp only: record_ok_iff)
      qed
      then show "list_all record_ok data'" by (simp add: list_all_length)
    qed
    with k show "length data' = length data \<and>
      (\<forall>i<length data. fst ` set (data' ! i) \<subseteq> fst ` set (data ! i) \<union> set calculated_columns) \<and>
      (list_all record_ok data \<longrightarrow> list_all record_ok data')" by blast
  qed
  from a b c show ?thesis by blast
qed

lemma sample_page_eval: "scrape_payment_data sample_page = [sample_record]"
  by code_simp

lemma sample_edit_eval:
  "update_data [sample_record] (Body [(IntKey 0, Updates [(''Principal_PassBook'', ''5'')])]) =
     Inr [edited_record]"
  by code_simp

lemma sample_dedup_eval: "remove_duplicates [sample_record, sample_record] = [sample_record]"
  by code_simp

lemma sample_record_ok: "record_ok sample_record"
  by code_simp

theorem column_invariant_witness:
  "sample_record \<in> set (scrape_payment_data sample_page) \<and> record_ok sample_record \<and>
   list_all record_ok [sample_record, sample_record] \<and>
   list_all record_ok (remove_duplicates [sample_record, sample_record]) \<and>
   update_data [sample_record] (Body [(IntKey 0, Updates [(''Principal_PassBook'', ''5'')])]) =
     Inr [edited_record] \<and>
   list_all record_ok [edited_record]"
  using column_invariant [of sample_page "[sample_record, sample_record]"]
    column_invariant [of sample_page "[sample_record]"
      "Body [(IntKey 0, Updates [(''Principal_PassBook'', ''5'')])]" "[edited_record]"]
  by (simp add: sample_page_eval sample_edit_eval sample_dedup_eval sample_record_ok)


section \<open>User edits and the row index\<close>

lemma map_of_dict_set_other: "c \<noteq> k \<Longrightarrow> map_of (dict_set d k v) c = map_of d c"
  by (simp add: map_of_dict_set)

lemma set_field_frame:
  assumes "set_field data idx k v = Inr data'"
  shows "(\<forall>i<length data. int i \<noteq> (if idx < 0 then int (length data) + idx else idx) \<longrightarrow>
            data' ! i = data ! i) \<and>
         (\<forall>i<length data. \<forall>c. c \<noteq> k \<longrightarrow> map_of (data' ! i) c = map_of (data ! i) c)"
proof -
  let ?j = "if idx < 0 then int (length data) + idx else idx"
  have j: "0 \<le> ?j" "?j < int (length data)"
    using assms by (simp_all add: set_field_def Let_def split: if_splits)
  have d: "data' = data[nat ?j := dict_set (data ! nat ?j) k v]"
    using assms by (simp add: set_field_def Let_def split: if_splits)
  have a: "\<And>i. i < length data \<Longrightarrow> int i \<noteq> ?j \<Longrightarrow> data' ! i = data ! i"
  proof -
    fix i assume "i < length data" "int i \<noteq> ?j"
    then have "i \<noteq> nat ?j" using j by linarith
    then show "data' ! i = data ! i" unfolding d by simp
  qed
  have b: "\<And>i c. i < length data \<Longrightarrow> c \<noteq> k \<Longrightarrow> map_of (data' ! i) c = map_of (data ! i) c"
  proof -
    fix i c assume i: "i < length data" and c: "c \<noteq> k"
    show "map_of (data' ! i) c = map_of (data ! i) c"
    proof (cases "i = nat ?j")
      case True
      then show ?thesis unfolding d using i c by (simp add: map_of_dict_set_other)
    next
      case False
      then show ?thesis unfolding d by simp
    qed
  qed
  show ?thesis using a b by blast
qed

text \<open>
  Claim C5. The guard \<open>row_idx < len(data)\<close> has no lower bound, and Python reads a
  negative index from the end of the list: the edit with row index \<open>-1\<close> on two stored
  records is neither ignored nor rejected, it writes to the last record.
\<close>

theorem negative_index_edits_last_record:
  "update_data [[(''Date'', ''x'')], [(''Date'', ''y'')]]
       (Body [(IntKey (- 1), Updates [(''Principal_PassBook'', ''5'')])]) =
     Inr [[(''Date'', ''x'')], [(''Date'', ''y''), (''Principal_PassBook'', ''5'')]]"
  by code_simp

lemma edit_beyond_end_ignored:
  "int (length data) \<le> idx \<Longrightarrow> update_data data (Body [(IntKey idx, u)]) = Inr data"
  by (simp add: update_data_def)

lemma apply_updates_frame:
  "apply_updates data idx kvs = Inr data' \<Longrightarrow>
     (\<forall>i<length data. int i \<noteq> (if idx < 0 then int (length data) + idx else idx) \<longrightarrow>
        data' ! i = data ! i) \<and>
     (\<forall>i<length data. \<forall>c. c \<notin> set editable_columns \<longrightarrow>
        map_of (data' ! i) c = map_of (data ! i) c)"
proof (induction kvs arbitrary: data)
  case Nil
  then show ?case by auto
next
  case (Cons kv kvs)
  obtain k v where kv: "kv = (k, v)" by (cases kv)
  show ?case
  proof (cases "k \<in> set editable_columns")
    case False
    then have "apply_updates data idx kvs = Inr data'" using Cons.prems kv by simp
    from Cons.IH [OF this] show ?thesis .
  next
    case True
    then have step: "apply_updates data idx (kv # kvs) =
        (case set_field data idx k v of Inl e \<Rightarrow> Inl e | Inr d \<Rightarrow> apply_updates d idx kvs)"
      using kv by simp
    show ?thesis
    proof (cases "set_field data idx k v")
      case (Inl e)
      then show ?thesis using step Cons.prems by simp
    next
      case (Inr d1)
      then have a: "apply_updates d1 idx kvs = Inr data'" using step Cons.prems by simp
      have len: "length d1 = length data" using set_field_keys [OF Inr] by simp
      note s = set_field_frame [OF Inr]
      note h = Cons.IH [OF a, unfolded len]
      have 1: "\<forall>i<length data. int i \<noteq> (if idx < 0 then int (length data) + idx else idx) \<longrightarrow>
          data' ! i = data ! i"
        using s h by simp
      have 2: "\<forall>i<length data. \<forall>c. c \<notin> set editable_columns \<longrightarrow>
          map_of (data' ! i) c = map_of (data ! i) c"
      proof (intro allI impI)
        fix i c assume i: "i < length data" and c: "c \<notin> set editable_columns"
        then have "c \<noteq> k" using True by auto
        then have "map_of (d1 ! i) c = map_of (data ! i) c" using s i by simp
        moreover have "map_of (data' ! i) c = map_of (d1 ! i) c" using h i c by simp
        ultimately show "map_of (data' ! i) c = map_of (data ! i) c" by simp
      qed
      from 1 2 show ?thesis by simp
    qed
  qed
qed

text \<open>
  A single edit with a row index that is not negative: an index past the end is ignored,
  and an index of a record changes that record only, in whitelisted columns only.
\<close>

lemma edit_in_range_frame:
  assumes "0 \<le> idx" "update_data data (Body [(IntKey idx, Updates kvs)]) = Inr data'"
  shows "length data' = length data \<and>
     (\<forall>i<length data. i \<noteq> nat idx \<longrightarrow> data' ! i = data ! i) \<and>
     (\<forall>i<length data. \<forall>c. c \<notin> set editable_columns \<longrightarrow>
        map_of (data' ! i) c = map_of (data ! i) c)"
proof (cases "idx < int (length data)")
  case False
  then have "data' = data" using assms(2) by (simp add: update_data_def)
  then show ?thesis by simp
next
  case True
  then have a: "apply_updates data idx kvs = Inr data'"
    using assms(2) by (simp add: update_data_def split: sum.splits)
  from apply_updates_frame [OF a] apply_updates_keys [OF a] assms(1) show ?thesis by auto
qed

end
